theory Spec2Isabelle
  imports Main "HOL-Library.Multiset" "HOL-Library.Char_ord" "HOL-Library.List_Lexorder"
begin

section \<open>The duplicate tagger of deduplicator-anki\<close>

text \<open>
  A shallow embedding of the deduplication core of \<^verbatim>\<open>deduplicator_anki/__init__.py\<close>:
  \<^verbatim>\<open>_get_dedup_key\<close>, \<^verbatim>\<open>_collect_note_ids\<close>, \<^verbatim>\<open>_group_duplicates\<close>,
  \<^verbatim>\<open>_apply_tag_to_duplicates\<close> and \<^verbatim>\<open>_tag_duplicates\<close>. The Qt form around them is
  not modelled. The host application (\<^verbatim>\<open>mw\<close>, its collection, \<^verbatim>\<open>showInfo\<close>) is a record
  that the functions read and return updated.
\<close>

subsection \<open>Constants\<close>

definition COMBINE_ALL_OPTION :: string where
  "COMBINE_ALL_OPTION = ''Combine All Keys''"

definition DEFAULT_TAG_NAME :: string where
  "DEFAULT_TAG_NAME = ''duplicate-card''"

definition max_details :: nat where
  "max_details = 50"

subsection \<open>Notes, exceptions and the host state\<close>

type_synonym note_id = int
type_synonym dedup_key = "string list"
type_synonym groups = "(dedup_key \<times> note_id list) list"

text \<open>
  A note of the collection: its fields in the order of its note type (\<^verbatim>\<open>note.keys()\<close> are
  the names, \<^verbatim>\<open>note.values()\<close> the contents), the cards generated from it
  (\<^verbatim>\<open>note.cards()\<close>) and its tags.
\<close>

record anki_note =
  note_fields :: "(string \<times> string) list"
  cards :: "int list"
  tags :: "string list"

definition note_keys :: "anki_note \<Rightarrow> string list" where
  "note_keys n = map fst (note_fields n)"

definition note_values :: "anki_note \<Rightarrow> string list" where
  "note_values n = map snd (note_fields n)"

text \<open>
  The exceptions that reach this code, each with the text \<^verbatim>\<open>str(e)\<close> gives: the search
  of the collection rejecting a filter, the collection not finding a note id, and Python's
  own \<^verbatim>\<open>IndexError\<close> of \<^verbatim>\<open>key[0]\<close> on an empty tuple.
\<close>

datatype exn = FilterError string | NotFoundError string | IndexError string

fun str_exn :: "exn \<Rightarrow> string" where
  "str_exn (FilterError m) = m"
| "str_exn (NotFoundError m) = m"
| "str_exn (IndexError m) = m"

text \<open>
  The host: the notes of \<^verbatim>\<open>mw.col\<close> by id, its search \<^verbatim>\<open>findNotes\<close>, the text of the
  exception \<^verbatim>\<open>getNote\<close> raises for an id it does not have, the messages shown with
  \<^verbatim>\<open>showInfo\<close> so far, and how often \<^verbatim>\<open>mw.reset()\<close> was called.
\<close>

record host =
  col_notes :: "note_id \<rightharpoonup> anki_note"
  findNotes :: "string \<Rightarrow> exn + note_id list"
  missing :: "note_id \<Rightarrow> string"
  shown :: "string list"
  resets :: nat

text \<open>The settings of the window that the core reads.\<close>

record window =
  anki_filter :: string
  selected_key :: string
  tag_name :: string

definition getNote :: "host \<Rightarrow> note_id \<Rightarrow> exn + anki_note" where
  "getNote s i =
     (case col_notes s i of
        None \<Rightarrow> Inl (NotFoundError (missing s i))
      | Some n \<Rightarrow> Inr n)"

text \<open>
  \<^verbatim>\<open>note.addTag(tag)\<close> followed by \<^verbatim>\<open>note.flush()\<close>, methods of the host's note class,
  as far as the tags of the stored note go. The host keeps the tags of a note as words
  separated by spaces, compares them without regard to letter case and stores them in
  order: the text given is split at its spaces, every word that the note does not carry
  yet (letter case ignored) is added, and the tags are stored sorted (letter case
  ignored). Letter case is that of the letters A to Z.
\<close>

definition lower_char :: "char \<Rightarrow> char" where
  "lower_char c =
     (case map_of (zip ''ABCDEFGHIJKLMNOPQRSTUVWXYZ'' ''abcdefghijklmnopqrstuvwxyz'') c of
        None \<Rightarrow> c
      | Some l \<Rightarrow> l)"

definition casefold :: "string \<Rightarrow> string" where
  "casefold t = map lower_char t"

fun split_tags_acc :: "string \<Rightarrow> string \<Rightarrow> string list" where
  "split_tags_acc cur [] = (if cur = [] then [] else [cur])"
| "split_tags_acc cur (c # cs) =
     (if c = CHR '' '' then (if cur = [] then [] else [cur]) @ split_tags_acc [] cs
      else split_tags_acc (cur @ [c]) cs)"

definition split_tags :: "string \<Rightarrow> string list" where
  "split_tags t = split_tags_acc [] t"

definition has_tag :: "string list \<Rightarrow> string \<Rightarrow> bool" where
  "has_tag ts t \<longleftrightarrow> casefold t \<in> set (map casefold ts)"

definition add_missing :: "string \<Rightarrow> string list \<Rightarrow> string list" where
  "add_missing t ts = (if has_tag ts t then ts else ts @ [t])"

definition addTag :: "string \<Rightarrow> anki_note \<Rightarrow> anki_note" where
  "addTag t n = n\<lparr>tags := sort_key casefold (fold add_missing (split_tags t) (tags n))\<rparr>"

text \<open>\<^verbatim>\<open>note.flush()\<close> of the note fetched under id \<open>i\<close>: one write to the collection.\<close>

definition flush :: "note_id \<Rightarrow> anki_note \<Rightarrow> host \<Rightarrow> host" where
  "flush i n s = s\<lparr>col_notes := (col_notes s)(i \<mapsto> n)\<rparr>"

definition showInfo :: "string \<Rightarrow> host \<Rightarrow> host" where
  "showInfo m s = s\<lparr>shown := shown s @ [m]\<rparr>"

definition reset :: "host \<Rightarrow> host" where
  "reset s = s\<lparr>resets := Suc (resets s)\<rparr>"

subsection \<open>Decimal text of numbers\<close>

definition digit_char :: "nat \<Rightarrow> char" where
  "digit_char d = ''0123456789'' ! d"

fun str_nat :: "nat \<Rightarrow> string" where
  "str_nat n = (if n < 10 then [digit_char n] else str_nat (n div 10) @ [digit_char (n mod 10)])"

declare str_nat.simps [simp del]

definition str_int :: "int \<Rightarrow> string" where
  "str_int i = (if i < 0 then CHR ''-'' # str_nat (nat (- i)) else str_nat (nat i))"

subsection \<open>Key extraction\<close>

text \<open>\<^verbatim>\<open>list.index\<close>, used only under the guard that the element is in the list.\<close>

fun index_of :: "'a \<Rightarrow> 'a list \<Rightarrow> nat" where
  "index_of x [] = 0"
| "index_of x (y # ys) = (if x = y then 0 else Suc (index_of x ys))"

definition get_dedup_key :: "window \<Rightarrow> anki_note \<Rightarrow> dedup_key option" where
  "get_dedup_key w n =
     (if selected_key w = COMBINE_ALL_OPTION then Some (note_values n)
      else if selected_key w \<in> set (note_keys n)
        then Some [note_values n ! index_of (selected_key w) (note_keys n)]
      else None)"

subsection \<open>Grouping\<close>

text \<open>
  \<^verbatim>\<open>duplicates[dedup_key].append(note_id)\<close> on a \<^verbatim>\<open>defaultdict(list)\<close>: the dictionary
  is a list of (key, bucket) pairs in the order the keys were first inserted, which is the
  order \<^verbatim>\<open>duplicates.items()\<close> yields.
\<close>

fun dd_append :: "'k \<Rightarrow> 'v \<Rightarrow> ('k \<times> 'v list) list \<Rightarrow> ('k \<times> 'v list) list" where
  "dd_append k v [] = [(k, [v])]"
| "dd_append k v ((k', vs) # rest) =
     (if k = k' then (k', vs @ [v]) # rest else (k', vs) # dd_append k v rest)"

fun group_loop :: "window \<Rightarrow> host \<Rightarrow> note_id list \<Rightarrow> groups \<Rightarrow> exn + groups" where
  "group_loop w s [] duplicates = Inr duplicates"
| "group_loop w s (note_id # note_ids) duplicates =
     (case getNote s note_id of
        Inl e \<Rightarrow> Inl e
      | Inr n \<Rightarrow>
          if cards n = [] then group_loop w s note_ids duplicates
          else (case get_dedup_key w n of
                  None \<Rightarrow> group_loop w s note_ids duplicates
                | Some dedup_key \<Rightarrow>
                    group_loop w s note_ids (dd_append dedup_key note_id duplicates)))"

definition group_duplicates :: "window \<Rightarrow> host \<Rightarrow> note_id list \<Rightarrow> exn + groups" where
  "group_duplicates w s note_ids = group_loop w s note_ids []"

subsection \<open>Tagging\<close>

text \<open>
  The display text of a key. \<^verbatim>\<open>key[0]\<close> is evaluated only when the selected key is not
  the sentinel, and raises on the empty tuple.
\<close>

definition key_display :: "window \<Rightarrow> dedup_key \<Rightarrow> exn + string" where
  "key_display w key =
     (if selected_key w = COMBINE_ALL_OPTION then Inr ''(combined keys)''
      else (case key of
              [] \<Rightarrow> Inl (IndexError ''tuple index out of range'')
            | k # _ \<Rightarrow> Inr k))"

text \<open>
  The inner loop over \<^verbatim>\<open>note_ids_list_sorted[1:]\<close>. The host is returned also when a
  fetch raises: the notes flushed before stay written.
\<close>

fun tag_loop ::
  "string \<Rightarrow> string \<Rightarrow> note_id list \<Rightarrow> nat \<times> string list \<Rightarrow> host
     \<Rightarrow> (exn + nat \<times> string list) \<times> host" where
  "tag_loop tag_to_apply disp [] acc s = (Inr acc, s)"
| "tag_loop tag_to_apply disp (note_id # rest) (total_tagged, details) s =
     (case getNote s note_id of
        Inl e \<Rightarrow> (Inl e, s)
      | Inr n \<Rightarrow>
          tag_loop tag_to_apply disp rest
            (total_tagged + 1,
             if length details < max_details
             then details @ [disp @ '': note_id:'' @ str_int note_id @ '' [TAGGED]'']
             else details)
            (flush note_id (addTag tag_to_apply n) s))"

fun apply_loop ::
  "window \<Rightarrow> string \<Rightarrow> groups \<Rightarrow> nat \<times> string list \<Rightarrow> host
     \<Rightarrow> (exn + nat \<times> string list) \<times> host" where
  "apply_loop w tag_to_apply [] acc s = (Inr acc, s)"
| "apply_loop w tag_to_apply ((key, note_ids_list) # rest) acc s =
     (if length note_ids_list \<le> 1 then apply_loop w tag_to_apply rest acc s
      else (case key_display w key of
              Inl e \<Rightarrow> (Inl e, s)
            | Inr disp \<Rightarrow>
                (case tag_loop tag_to_apply disp (drop 1 (sort note_ids_list)) acc s of
                   (Inl e, s') \<Rightarrow> (Inl e, s')
                 | (Inr acc', s') \<Rightarrow> apply_loop w tag_to_apply rest acc' s')))"

definition apply_tag_to_duplicates ::
  "window \<Rightarrow> groups \<Rightarrow> string \<Rightarrow> host \<Rightarrow> (exn + nat \<times> string list) \<times> host" where
  "apply_tag_to_duplicates w duplicates tag_to_apply s =
     apply_loop w tag_to_apply duplicates (0, []) s"

subsection \<open>The run\<close>

definition collect_note_ids :: "window \<Rightarrow> host \<Rightarrow> note_id list option \<times> host" where
  "collect_note_ids w s =
     (case findNotes s (anki_filter w) of
        Inl e \<Rightarrow> (None, showInfo (''Error executing filter: '' @ str_exn e) s)
      | Inr note_ids \<Rightarrow> (Some note_ids, s))"

definition summary :: "nat \<Rightarrow> string \<Rightarrow> string" where
  "summary total_tagged tag_to_apply =
     ''Total: '' @ str_nat total_tagged @ '' notes tagged as '' @ [CHR 0x27] @ tag_to_apply
       @ [CHR 0x27]"

text \<open>
  \<^verbatim>\<open>_tag_duplicates\<close>: \<open>Inr None\<close> is the return of \<^verbatim>\<open>None\<close> after a reported error,
  \<open>Inr (Some m)\<close> the summary, and \<open>Inl e\<close> an exception that leaves the function: the call
  of the tagger stands outside every \<^verbatim>\<open>try\<close>.
\<close>

definition tag_duplicates :: "window \<Rightarrow> host \<Rightarrow> (exn + string option) \<times> host" where
  "tag_duplicates w s =
     (case collect_note_ids w s of
        (None, s1) \<Rightarrow> (Inr None, s1)
      | (Some note_ids, s1) \<Rightarrow>
          (case group_duplicates w s1 note_ids of
             Inl e \<Rightarrow> (Inr None, showInfo (''Error while locating duplicates: '' @ str_exn e) s1)
           | Inr duplicates \<Rightarrow>
               (let tag_to_apply = (if tag_name w = [] then DEFAULT_TAG_NAME else tag_name w)
                in case apply_tag_to_duplicates w duplicates tag_to_apply s1 of
                     (Inl e, s2) \<Rightarrow> (Inl e, s2)
                   | (Inr (total_tagged, details), s2) \<Rightarrow>
                       (Inr (Some (summary total_tagged tag_to_apply)), reset s2))))"

subsection \<open>Notions used to state the properties\<close>

text \<open>All identifiers of a duplicate-group map, bucket after bucket.\<close>

definition ids_of :: "groups \<Rightarrow> note_id list" where
  "ids_of gs = concat (map snd gs)"

text \<open>The note stored under \<open>i\<close> carries the tag \<open>t\<close>.\<close>

definition labeled :: "host \<Rightarrow> string \<Rightarrow> note_id \<Rightarrow> bool" where
  "labeled s t i = (case col_notes s i of None \<Rightarrow> False | Some n \<Rightarrow> t \<in> set (tags n))"

text \<open>
  The note stored under \<open>i\<close> carries every word of the text \<open>t\<close> as a tag, letter case
  ignored: what the host makes of tagging a note with \<open>t\<close>.
\<close>

definition carries_label :: "host \<Rightarrow> string \<Rightarrow> note_id \<Rightarrow> bool" where
  "carries_label s t i =
     (case col_notes s i of
        None \<Rightarrow> False
      | Some n \<Rightarrow> list_all (has_tag (tags n)) (split_tags t))"

text \<open>Tagging the note stored under \<open>i\<close> with \<open>t\<close> once more would write what is stored.\<close>

definition settled :: "host \<Rightarrow> string \<Rightarrow> note_id \<Rightarrow> bool" where
  "settled s t i = (case col_notes s i of None \<Rightarrow> False | Some n \<Rightarrow> addTag t n = n)"

text \<open>
  From \<open>s\<close> to \<open>s'\<close> nothing happened but tags being added: the same notes exist, with the
  same fields and cards and at least the tags they had; the search, the messages shown and
  the reset count are the same.
\<close>

definition only_adds_tags :: "host \<Rightarrow> host \<Rightarrow> bool" where
  "only_adds_tags s s' \<longleftrightarrow>
     findNotes s' = findNotes s \<and> missing s' = missing s \<and> shown s' = shown s \<and>
     resets s' = resets s \<and> dom (col_notes s') = dom (col_notes s) \<and>
     (\<forall>i n. col_notes s i = Some n \<longrightarrow>
        (\<exists>n'. col_notes s' i = Some n' \<and> note_fields n' = note_fields n \<and> cards n' = cards n \<and>
              set (tags n) \<subseteq> set (tags n')))"

text \<open>The ids the tagger fetches, in the order it fetches them.\<close>

definition targets :: "groups \<Rightarrow> note_id list" where
  "targets gs = concat (map (\<lambda>(key, b). if length b \<le> 1 then [] else drop 1 (sort b)) gs)"

text \<open>
  The key under which the grouper files the id \<open>i\<close>: none when the note has no cards or
  \<^verbatim>\<open>_get_dedup_key\<close> returns \<^verbatim>\<open>None\<close>.
\<close>

definition note_key :: "window \<Rightarrow> host \<Rightarrow> note_id \<Rightarrow> dedup_key option" where
  "note_key w s i =
     (case col_notes s i of
        None \<Rightarrow> None
      | Some n \<Rightarrow> if cards n = [] then None else get_dedup_key w n)"

text \<open>\<^verbatim>\<open>duplicates.get(k, [])\<close>: the bucket of a key, empty when the key is not there.\<close>

definition bucket :: "groups \<Rightarrow> dedup_key \<Rightarrow> note_id list" where
  "bucket d k = (case map_of d k of None \<Rightarrow> [] | Some b \<Rightarrow> b)"

text \<open>
  The duplicate-group maps the tagger is passed: those the grouper builds from distinct
  ids (lemma \<open>group_duplicates_grouper_map\<close>). No id occurs twice in the map, every id is
  a note of the collection, and no key is the empty tuple unless the selected key is the
  sentinel (a note with no fields).
\<close>

definition grouper_map :: "window \<Rightarrow> host \<Rightarrow> groups \<Rightarrow> bool" where
  "grouper_map w s gs \<longleftrightarrow>
     distinct (ids_of gs) \<and> list_all (\<lambda>i. col_notes s i \<noteq> None) (ids_of gs) \<and>
     (selected_key w = COMBINE_ALL_OPTION \<or> [] \<notin> fst ` set gs)"

subsection \<open>A small collection for the concrete instances\<close>

definition demo_note :: "(string \<times> string) list \<Rightarrow> int list \<Rightarrow> string list \<Rightarrow> anki_note" where
  "demo_note fs cs ts = \<lparr>note_fields = fs, cards = cs, tags = ts\<rparr>"

text \<open>
  Notes 1 and 2 are duplicates, 3 is not, 4 has the contents of 1 under other field names,
  5 has the contents of 1 and no cards; id 9 is listed by one search and does not exist.
\<close>

definition demo_host :: host where
  "demo_host =
     \<lparr>col_notes =
        [1 \<mapsto> demo_note [(''Front'', ''A''), (''Back'', ''X'')] [11] [],
         2 \<mapsto> demo_note [(''Front'', ''A''), (''Back'', ''X'')] [12] [],
         3 \<mapsto> demo_note [(''Front'', ''B''), (''Back'', ''Y'')] [13] [],
         4 \<mapsto> demo_note [(''Question'', ''A''), (''Answer'', ''X'')] [14] [],
         5 \<mapsto> demo_note [(''Front'', ''A''), (''Back'', ''X'')] [] []],
      findNotes = (\<lambda>f. if f = ''deck:D'' then Inr [1, 2, 3]
                        else if f = ''deck:All'' then Inr [1, 2, 3, 4, 5]
                        else if f = ''deck:Empty'' then Inr []
                        else if f = ''deck:Stale'' then Inr [1, 2, 9]
                        else Inl (FilterError ''bad filter'')),
      missing = (\<lambda>i. ''note not found''),
      shown = [],
      resets = 0\<rparr>"

definition demo_window :: "string \<Rightarrow> string \<Rightarrow> window" where
  "demo_window f k = \<lparr>anki_filter = f, selected_key = k, tag_name = ''dup''\<rparr>"

section \<open>Auxiliary facts\<close>

lemmas demo_defs = demo_note_def demo_host_def demo_window_def COMBINE_ALL_OPTION_def
  DEFAULT_TAG_NAME_def

subsection \<open>The host's tagging\<close>

lemma has_tag_mono: "has_tag ts t \<Longrightarrow> set ts \<subseteq> set us \<Longrightarrow> has_tag us t"
  by (auto simp: has_tag_def)

lemma set_add_missing: "set ts \<subseteq> set (add_missing t ts)"
  by (auto simp: add_missing_def)

lemma has_tag_add_missing: "has_tag (add_missing t ts) t"
  by (auto simp: add_missing_def has_tag_def)

lemma set_fold_add_missing: "set ts \<subseteq> set (fold add_missing ws ts)"
proof (induction ws arbitrary: ts)
  case Nil
  then show ?case by simp
next
  case (Cons w ws)
  have "set ts \<subseteq> set (add_missing w ts)" by (rule set_add_missing)
  also have "\<dots> \<subseteq> set (fold add_missing ws (add_missing w ts))" by (rule Cons.IH)
  finally show ?case by simp
qed

lemma has_tag_fold_add_missing: "w \<in> set ws \<Longrightarrow> has_tag (fold add_missing ws ts) w"
proof (induction ws arbitrary: ts)
  case Nil
  then show ?case by simp
next
  case (Cons v ws)
  show ?case
  proof (cases "w = v")
    case True
    have "has_tag (add_missing v ts) v" by (rule has_tag_add_missing)
    then have "has_tag (fold add_missing ws (add_missing v ts)) v"
      using set_fold_add_missing by (rule has_tag_mono)
    with True show ?thesis by simp
  next
    case False
    with Cons.prems have "w \<in> set ws" by simp
    then show ?thesis by (simp add: Cons.IH)
  qed
qed

lemma fold_add_missing_same: "\<forall>w\<in>set ws. has_tag ts w \<Longrightarrow> fold add_missing ws ts = ts"
  by (induction ws) (simp_all add: add_missing_def)

lemma set_tags_addTag: "set (tags n) \<subseteq> set (tags (addTag t n))"
  using set_fold_add_missing[of "tags n" "split_tags t"] by (simp add: addTag_def)

lemma has_tag_addTag: "w \<in> set (split_tags t) \<Longrightarrow> has_tag (tags (addTag t n)) w"
  using has_tag_fold_add_missing[of w "split_tags t" "tags n"]
  by (simp add: addTag_def has_tag_def)

lemma addTag_idem: "addTag t (addTag t n) = addTag t n"
proof -
  let ?S = "tags (addTag t n)"
  have "\<forall>w\<in>set (split_tags t). has_tag ?S w" by (simp add: has_tag_addTag)
  then have "fold add_missing (split_tags t) ?S = ?S" by (rule fold_add_missing_same)
  moreover have "sort_key casefold ?S = ?S"
    by (simp add: addTag_def sort_key_id_if_sorted)
  ultimately show ?thesis by (simp add: addTag_def)
qed

lemma addTag_other [simp]:
  "note_fields (addTag t n) = note_fields n" "cards (addTag t n) = cards n"
  by (simp_all add: addTag_def)

subsection \<open>Tags are only added\<close>

lemma only_adds_tags_refl: "only_adds_tags s s"
  by (simp add: only_adds_tags_def)

lemma only_adds_tags_trans:
  assumes a: "only_adds_tags s s'" and b: "only_adds_tags s' s''"
  shows "only_adds_tags s s''"
proof -
  have "\<exists>n''. col_notes s'' i = Some n'' \<and> note_fields n'' = note_fields n \<and>
          cards n'' = cards n \<and> set (tags n) \<subseteq> set (tags n'')"
    if n: "col_notes s i = Some n" for i n
  proof -
    from a n obtain n' where n': "col_notes s' i = Some n'" "note_fields n' = note_fields n"
      "cards n' = cards n" "set (tags n) \<subseteq> set (tags n')"
      unfolding only_adds_tags_def by blast
    from b n'(1) obtain n'' where "col_notes s'' i = Some n''" "note_fields n'' = note_fields n'"
      "cards n'' = cards n'" "set (tags n') \<subseteq> set (tags n'')"
      unfolding only_adds_tags_def by blast
    with n' show ?thesis by auto
  qed
  moreover from a b have "findNotes s'' = findNotes s" "missing s'' = missing s"
    "shown s'' = shown s" "resets s'' = resets s" "dom (col_notes s'') = dom (col_notes s)"
    unfolding only_adds_tags_def by simp_all
  ultimately show ?thesis unfolding only_adds_tags_def by blast
qed

lemma only_adds_tags_flush:
  "col_notes s i = Some n \<Longrightarrow> only_adds_tags s (flush i (addTag t n) s)"
  using set_tags_addTag[of n t] by (auto simp: only_adds_tags_def flush_def)

lemma only_adds_tags_carries:
  assumes "only_adds_tags s s'" and "carries_label s t i"
  shows "carries_label s' t i"
proof -
  from assms(2) obtain n where n: "col_notes s i = Some n"
    and h: "\<forall>w\<in>set (split_tags t). has_tag (tags n) w"
    by (auto simp: carries_label_def list_all_iff split: option.splits)
  from assms(1) n obtain n' where n': "col_notes s' i = Some n'" "set (tags n) \<subseteq> set (tags n')"
    unfolding only_adds_tags_def by blast
  from h n'(2) have "\<forall>w\<in>set (split_tags t). has_tag (tags n') w"
    using has_tag_mono by blast
  with n'(1) show ?thesis by (simp add: carries_label_def list_all_iff)
qed

lemma carries_label_flush: "carries_label (flush i (addTag t n) s) t i"
  by (simp add: carries_label_def flush_def list_all_iff has_tag_addTag)

lemma settled_flush: "settled (flush i (addTag t n) s) t i"
  by (simp add: settled_def flush_def addTag_idem)

lemma only_adds_tags_labeled:
  "only_adds_tags s s' \<Longrightarrow> labeled s t i \<Longrightarrow> labeled s' t i"
  by (fastforce simp: only_adds_tags_def labeled_def split: option.splits)

lemma getNote_Inr: "getNote s i = Inr n \<longleftrightarrow> col_notes s i = Some n"
  by (simp add: getNote_def split: option.splits)

subsection \<open>The inner loop of the tagger\<close>

lemma tag_loop_only_adds:
  "only_adds_tags s (snd (tag_loop t disp is acc s))"
proof (induction "is" arbitrary: acc s)
  case Nil
  then show ?case by (simp add: only_adds_tags_refl)
next
  case (Cons i "is")
  obtain c d where acc: "acc = (c, d)" by (cases acc)
  show ?case
  proof (cases "getNote s i")
    case (Inl e)
    then show ?thesis by (simp add: acc only_adds_tags_refl)
  next
    case (Inr n)
    then have "only_adds_tags s (flush i (addTag t n) s)"
      by (simp add: getNote_Inr only_adds_tags_flush)
    then show ?thesis
      using Cons.IH only_adds_tags_trans by (simp add: acc Inr)
  qed
qed

lemma tag_loop_frame:
  "i \<notin> set is \<Longrightarrow> col_notes (snd (tag_loop t disp is acc s)) i = col_notes s i"
proof (induction "is" arbitrary: acc s)
  case Nil
  then show ?case by simp
next
  case (Cons j "is")
  obtain c d where acc: "acc = (c, d)" by (cases acc)
  from Cons show ?case
    by (cases "getNote s j") (simp_all add: acc flush_def)
qed

lemma tag_loop_success:
  "set is \<subseteq> dom (col_notes s) \<Longrightarrow>
   \<exists>d' s'. tag_loop t disp is (c, d) s = (Inr (c + length is, d'), s') \<and>
           (\<forall>i\<in>set is. carries_label s' t i)"
proof (induction "is" arbitrary: c d s)
  case Nil
  then show ?case by simp
next
  case (Cons i "is")
  then obtain n where n: "col_notes s i = Some n" by auto
  let ?s1 = "flush i (addTag t n) s"
  let ?d1 = "if length d < max_details
             then d @ [disp @ '': note_id:'' @ str_int i @ '' [TAGGED]''] else d"
  have "set is \<subseteq> dom (col_notes ?s1)"
    using Cons.prems by (auto simp: flush_def)
  from Cons.IH[OF this, of "c + 1" ?d1]
  obtain d' s' where r: "tag_loop t disp is (c + 1, ?d1) ?s1 = (Inr (c + 1 + length is, d'), s')"
    and l: "\<forall>j\<in>set is. carries_label s' t j" by blast
  have "carries_label ?s1 t i" by (rule carries_label_flush)
  moreover have "only_adds_tags ?s1 s'"
    using tag_loop_only_adds[of ?s1 t disp "is" "(c + 1, ?d1)"] r by simp
  ultimately have "carries_label s' t i" by (rule only_adds_tags_carries[rotated])
  with r l n show ?case by (simp add: getNote_def)
qed

lemma tag_loop_count:
  "tag_loop t disp is (c, d) s = (Inr (c', d'), s') \<Longrightarrow> c' = c + length is"
proof (induction "is" arbitrary: c d s)
  case Nil
  then show ?case by simp
next
  case (Cons i "is")
  show ?case
  proof (cases "getNote s i")
    case (Inl e)
    with Cons.prems show ?thesis by simp
  next
    case (Inr n)
    with Cons.prems have "c' = (c + 1) + length is"
      by (intro Cons.IH) simp
    then show ?thesis by simp
  qed
qed

lemma flush_same: "col_notes u i = Some m \<Longrightarrow> flush i m u = u"
  by (simp add: flush_def map_upd_triv)

lemma tag_loop_keeps_settled:
  "settled s t j \<Longrightarrow> settled (snd (tag_loop t disp is acc s)) t j"
proof (induction "is" arbitrary: acc s)
  case Nil
  then show ?case by simp
next
  case (Cons i "is")
  obtain c d where acc: "acc = (c, d)" by (cases acc)
  show ?case
  proof (cases "col_notes s i")
    case None
    with Cons.prems show ?thesis by (simp add: acc getNote_def)
  next
    case (Some n)
    have "settled (flush i (addTag t n) s) t j"
    proof (cases "j = i")
      case True
      then show ?thesis by (simp add: settled_flush)
    next
      case False
      with Cons.prems show ?thesis by (simp add: settled_def flush_def)
    qed
    then have "settled (snd (tag_loop t disp is
        (c + 1, if length d < max_details
                then d @ [disp @ '': note_id:'' @ str_int i @ '' [TAGGED]''] else d)
        (flush i (addTag t n) s))) t j"
      by (rule Cons.IH)
    with Some show ?thesis by (simp add: acc getNote_def)
  qed
qed

lemma tag_loop_replay:
  assumes "dom (col_notes u) = dom (col_notes s)" and "missing u = missing s"
    and "\<And>i. settled (snd (tag_loop t disp is acc s)) t i \<Longrightarrow> settled u t i"
  shows "tag_loop t disp is acc u = (fst (tag_loop t disp is acc s), u)"
  using assms
proof (induction "is" arbitrary: acc s)
  case Nil
  then show ?case by simp
next
  case (Cons i "is")
  obtain c d where acc: "acc = (c, d)" by (cases acc)
  show ?case
  proof (cases "col_notes s i")
    case None
    with Cons.prems(1) have "col_notes u i = None" by (metis domIff)
    with None Cons.prems(2) show ?thesis by (simp add: acc getNote_def)
  next
    case (Some n)
    let ?s1 = "flush i (addTag t n) s"
    let ?acc1 = "(c + 1, if length d < max_details
             then d @ [disp @ '': note_id:'' @ str_int i @ '' [TAGGED]''] else d)"
    have step: "tag_loop t disp (i # is) acc s = tag_loop t disp is ?acc1 ?s1"
      using Some by (simp add: acc getNote_def)
    have "settled ?s1 t i" by (rule settled_flush)
    then have "settled (snd (tag_loop t disp is ?acc1 ?s1)) t i"
      by (rule tag_loop_keeps_settled)
    then have "settled u t i" using Cons.prems(3) step by simp
    then obtain m where m: "col_notes u i = Some m" "addTag t m = m"
      by (auto simp: settled_def split: option.splits)
    have stepu: "tag_loop t disp (i # is) acc u = tag_loop t disp is ?acc1 u"
      using m by (simp add: acc getNote_def flush_same)
    have "tag_loop t disp is ?acc1 u = (fst (tag_loop t disp is ?acc1 ?s1), u)"
    proof (rule Cons.IH)
      show "dom (col_notes u) = dom (col_notes ?s1)"
        using Cons.prems(1) Some by (auto simp: flush_def)
      show "missing u = missing ?s1" using Cons.prems(2) by (simp add: flush_def)
      show "\<And>j. settled (snd (tag_loop t disp is ?acc1 ?s1)) t j \<Longrightarrow> settled u t j"
        using Cons.prems(3) step by simp
    qed
    with step stepu show ?thesis by simp
  qed
qed

subsection \<open>The loop over the buckets\<close>

lemma targets_Nil [simp]: "targets [] = []"
  by (simp add: targets_def)

lemma targets_Cons [simp]:
  "targets ((key, b) # gs) = (if length b \<le> 1 then [] else drop 1 (sort b)) @ targets gs"
  by (simp add: targets_def)

lemma apply_loop_only_adds:
  "only_adds_tags s (snd (apply_loop w t gs acc s))"
proof (induction gs arbitrary: acc s)
  case Nil
  then show ?case by (simp add: only_adds_tags_refl)
next
  case (Cons g gs)
  obtain key b where g: "g = (key, b)" by (cases g)
  show ?case
  proof (cases "length b \<le> 1")
    case True
    then show ?thesis using Cons.IH by (simp add: g)
  next
    case long: False
    show ?thesis
    proof (cases "key_display w key")
      case (Inl e)
      then show ?thesis using long by (simp add: g only_adds_tags_refl)
    next
      case (Inr disp)
      obtain r s1 where r: "tag_loop t disp (drop 1 (sort b)) acc s = (r, s1)"
        by (cases "tag_loop t disp (drop 1 (sort b)) acc s")
      then have s1: "only_adds_tags s s1"
        using tag_loop_only_adds[of s t disp "drop 1 (sort b)" acc] by simp
      show ?thesis
      proof (cases r)
        case (Inl e)
        then show ?thesis using long Inr r s1 by (simp add: g)
      next
        case (Inr acc')
        have "only_adds_tags s1 (snd (apply_loop w t gs acc' s1))" by (rule Cons.IH)
        with s1 have "only_adds_tags s (snd (apply_loop w t gs acc' s1))"
          by (rule only_adds_tags_trans)
        then show ?thesis using long \<open>key_display w key = Inr disp\<close> r Inr by (simp add: g)
      qed
    qed
  qed
qed

lemma apply_loop_frame:
  "i \<notin> set (targets gs) \<Longrightarrow> col_notes (snd (apply_loop w t gs acc s)) i = col_notes s i"
proof (induction gs arbitrary: acc s)
  case Nil
  then show ?case by simp
next
  case (Cons g gs)
  obtain key b where g: "g = (key, b)" by (cases g)
  show ?case
  proof (cases "length b \<le> 1")
    case True
    then show ?thesis using Cons by (simp add: g)
  next
    case long: False
    show ?thesis
    proof (cases "key_display w key")
      case (Inl e)
      then show ?thesis using long by (simp add: g)
    next
      case (Inr disp)
      obtain r s1 where r: "tag_loop t disp (drop 1 (sort b)) acc s = (r, s1)"
        by (cases "tag_loop t disp (drop 1 (sort b)) acc s")
      have "i \<notin> set (drop 1 (sort b))" using Cons.prems long by (simp add: g)
      then have s1: "col_notes s1 i = col_notes s i"
        using tag_loop_frame[of i "drop 1 (sort b)" t disp acc s] r by simp
      show ?thesis
      proof (cases r)
        case (Inl e)
        then show ?thesis using long Inr r s1 by (simp add: g)
      next
        case (Inr acc')
        have "col_notes (snd (apply_loop w t gs acc' s1)) i = col_notes s1 i"
          using Cons.prems long by (intro Cons.IH) (simp add: g)
        then show ?thesis
          using long \<open>key_display w key = Inr disp\<close> r Inr s1 by (simp add: g)
      qed
    qed
  qed
qed

lemma apply_loop_count:
  "apply_loop w t gs (c, d) s = (Inr (c', d'), s') \<Longrightarrow> c' = c + length (targets gs)"
proof (induction gs arbitrary: c d s)
  case Nil
  then show ?case by simp
next
  case (Cons g gs)
  obtain key b where g: "g = (key, b)" by (cases g)
  show ?case
  proof (cases "length b \<le> 1")
    case True
    then show ?thesis using Cons by (simp add: g)
  next
    case long: False
    from Cons.prems long obtain disp where disp: "key_display w key = Inr disp"
      by (cases "key_display w key") (simp_all add: g)
    obtain r s1 where r: "tag_loop t disp (drop 1 (sort b)) (c, d) s = (r, s1)"
      by (cases "tag_loop t disp (drop 1 (sort b)) (c, d) s")
    from Cons.prems long disp r obtain c1 d1 where r1: "r = Inr (c1, d1)"
      and rest: "apply_loop w t gs (c1, d1) s1 = (Inr (c', d'), s')"
      by (cases r) (auto simp: g)
    from r r1 have "c1 = c + length (drop 1 (sort b))" by (auto dest: tag_loop_count)
    moreover from rest have "c' = c1 + length (targets gs)" by (rule Cons.IH)
    ultimately show ?thesis using long by (simp add: g)
  qed
qed

lemma apply_loop_success:
  assumes "set (targets gs) \<subseteq> dom (col_notes s)"
    and "\<And>key b. (key, b) \<in> set gs \<Longrightarrow> 2 \<le> length b \<Longrightarrow> \<exists>disp. key_display w key = Inr disp"
  shows "\<exists>d' s'. apply_loop w t gs (c, d) s = (Inr (c + length (targets gs), d'), s') \<and>
           (\<forall>i\<in>set (targets gs). carries_label s' t i)"
  using assms
proof (induction gs arbitrary: c d s)
  case Nil
  then show ?case by simp
next
  case (Cons g gs)
  obtain key b where g: "g = (key, b)" by (cases g)
  have keys: "\<And>key b. (key, b) \<in> set gs \<Longrightarrow> 2 \<le> length b \<Longrightarrow> \<exists>disp. key_display w key = Inr disp"
    using Cons.prems(2) by (meson list.set_intros(2))
  show ?case
  proof (cases "length b \<le> 1")
    case True
    have "set (targets gs) \<subseteq> dom (col_notes s)" using Cons.prems(1) True by (simp add: g)
    then have "\<exists>d' s'. apply_loop w t gs (c, d) s = (Inr (c + length (targets gs), d'), s') \<and>
           (\<forall>i\<in>set (targets gs). carries_label s' t i)"
      using keys by (rule Cons.IH)
    with True show ?thesis by (simp add: g)
  next
    case long: False
    then obtain disp where disp: "key_display w key = Inr disp"
      using Cons.prems(2)[of key b] by (auto simp: g)
    have sub: "set (drop 1 (sort b)) \<subseteq> dom (col_notes s)"
      using Cons.prems(1) long by (simp add: g)
    from tag_loop_success[OF sub, of t disp c d]
    obtain d1 s1 where r: "tag_loop t disp (drop 1 (sort b)) (c, d) s
          = (Inr (c + length (drop 1 (sort b)), d1), s1)"
      and l1: "\<forall>i\<in>set (drop 1 (sort b)). carries_label s1 t i" by blast
    have oa: "only_adds_tags s s1"
      using tag_loop_only_adds[of s t disp "drop 1 (sort b)" "(c, d)"] r by simp
    then have "dom (col_notes s1) = dom (col_notes s)" by (simp add: only_adds_tags_def)
    then have "set (targets gs) \<subseteq> dom (col_notes s1)"
      using Cons.prems(1) long by (simp add: g)
    then have "\<exists>d' s'. apply_loop w t gs (c + length (drop 1 (sort b)), d1) s1
          = (Inr (c + length (drop 1 (sort b)) + length (targets gs), d'), s') \<and>
           (\<forall>i\<in>set (targets gs). carries_label s' t i)"
      using keys by (rule Cons.IH)
    then obtain d' s' where rest: "apply_loop w t gs (c + length (drop 1 (sort b)), d1) s1
          = (Inr (c + length (drop 1 (sort b)) + length (targets gs), d'), s')"
      and l2: "\<forall>i\<in>set (targets gs). carries_label s' t i" by blast
    have "only_adds_tags s1 s'"
      using apply_loop_only_adds[of s1 w t gs "(c + length (drop 1 (sort b)), d1)"] rest by simp
    with l1 have "\<forall>i\<in>set (drop 1 (sort b)). carries_label s' t i"
      using only_adds_tags_carries by blast
    with l2 rest r disp long show ?thesis by (auto simp: g add.assoc)
  qed
qed

lemma apply_loop_keeps_settled:
  "settled s t j \<Longrightarrow> settled (snd (apply_loop w t gs acc s)) t j"
proof (induction gs arbitrary: acc s)
  case Nil
  then show ?case by simp
next
  case (Cons g gs)
  obtain key b where g: "g = (key, b)" by (cases g)
  show ?case
  proof (cases "length b \<le> 1")
    case True
    then show ?thesis using Cons by (simp add: g)
  next
    case long: False
    show ?thesis
    proof (cases "key_display w key")
      case (Inl e)
      then show ?thesis using long Cons.prems by (simp add: g)
    next
      case (Inr disp)
      obtain r s1 where r: "tag_loop t disp (drop 1 (sort b)) acc s = (r, s1)"
        by (cases "tag_loop t disp (drop 1 (sort b)) acc s")
      have s1: "settled s1 t j"
        using tag_loop_keeps_settled[OF Cons.prems, of disp "drop 1 (sort b)" acc] r by simp
      show ?thesis
      proof (cases r)
        case (Inl e)
        then show ?thesis using long Inr r s1 by (simp add: g)
      next
        case (Inr acc')
        have "settled (snd (apply_loop w t gs acc' s1)) t j" using s1 by (rule Cons.IH)
        then show ?thesis
          using long \<open>key_display w key = Inr disp\<close> r Inr by (simp add: g)
      qed
    qed
  qed
qed

lemma apply_loop_replay:
  assumes "dom (col_notes u) = dom (col_notes s)" and "missing u = missing s"
    and "\<And>i. settled (snd (apply_loop w t gs acc s)) t i \<Longrightarrow> settled u t i"
  shows "apply_loop w t gs acc u = (fst (apply_loop w t gs acc s), u)"
  using assms
proof (induction gs arbitrary: acc s)
  case Nil
  then show ?case by simp
next
  case (Cons g gs)
  obtain key b where g: "g = (key, b)" by (cases g)
  show ?case
  proof (cases "length b \<le> 1")
    case True
    have "apply_loop w t gs acc u = (fst (apply_loop w t gs acc s), u)"
      using Cons.prems True by (intro Cons.IH) (simp_all add: g)
    then show ?thesis using True by (simp add: g)
  next
    case long: False
    show ?thesis
    proof (cases "key_display w key")
      case (Inl e)
      then show ?thesis using long by (simp add: g)
    next
      case (Inr disp)
      obtain r s1 where r: "tag_loop t disp (drop 1 (sort b)) acc s = (r, s1)"
        by (cases "tag_loop t disp (drop 1 (sort b)) acc s")
      have oa: "only_adds_tags s s1"
        using tag_loop_only_adds[of s t disp "drop 1 (sort b)" acc] r by simp
      have fin: "settled (snd (apply_loop w t ((key, b) # gs) acc s)) t i"
        if "settled s1 t i" for i
        using that long Inr r apply_loop_keeps_settled[of s1 t i w gs]
        by (cases r) simp_all
      have "tag_loop t disp (drop 1 (sort b)) acc u
              = (fst (tag_loop t disp (drop 1 (sort b)) acc s), u)"
      proof (rule tag_loop_replay[OF Cons.prems(1,2)])
        fix i assume "settled (snd (tag_loop t disp (drop 1 (sort b)) acc s)) t i"
        then have "settled s1 t i" using r by simp
        then have "settled (snd (apply_loop w t ((key, b) # gs) acc s)) t i"
          by (rule fin)
        then show "settled u t i" using Cons.prems(3) by (simp add: g)
      qed
      then have ru: "tag_loop t disp (drop 1 (sort b)) acc u = (r, u)" using r by simp
      show ?thesis
      proof (cases r)
        case (Inl e)
        then show ?thesis using long \<open>key_display w key = Inr disp\<close> r ru by (simp add: g)
      next
        case (Inr acc')
        have "apply_loop w t gs acc' u = (fst (apply_loop w t gs acc' s1), u)"
        proof (rule Cons.IH)
          show "dom (col_notes u) = dom (col_notes s1)"
            using Cons.prems(1) oa by (simp add: only_adds_tags_def)
          show "missing u = missing s1" using Cons.prems(2) oa by (simp add: only_adds_tags_def)
          show "\<And>i. settled (snd (apply_loop w t gs acc' s1)) t i \<Longrightarrow> settled u t i"
            using Cons.prems(3) long \<open>key_display w key = Inr disp\<close> r Inr by (simp add: g)
        qed
        then show ?thesis using long \<open>key_display w key = Inr disp\<close> r ru Inr by (simp add: g)
      qed
    qed
  qed
qed

lemma apply_tag_idempotent:
  "apply_tag_to_duplicates w gs t (snd (apply_tag_to_duplicates w gs t s))
     = apply_tag_to_duplicates w gs t s"
proof -
  let ?u = "snd (apply_loop w t gs (0, []) s)"
  have oa: "only_adds_tags s ?u" by (rule apply_loop_only_adds)
  have "apply_loop w t gs (0, []) ?u = (fst (apply_loop w t gs (0, []) s), ?u)"
    by (rule apply_loop_replay) (use oa in \<open>simp_all add: only_adds_tags_def\<close>)
  then show ?thesis by (simp add: apply_tag_to_duplicates_def)
qed

lemma sort_mset_cong: "mset xs = mset ys \<Longrightarrow> sort xs = sort (ys :: int list)"
  by (metis properties_for_sort sorted_sort mset_sort)

lemma apply_loop_perm:
  "list_all2 (\<lambda>(k, b) (k', b'). k = k' \<and> mset b = mset b') gs gs' \<Longrightarrow>
   apply_loop w t gs acc s = apply_loop w t gs' acc s"
proof (induction gs gs' arbitrary: acc s rule: list_all2_induct)
  case Nil
  then show ?case by simp
next
  case (Cons g gs g' gs')
  obtain k b where g: "g = (k, b)" by (cases g)
  obtain k' b' where g': "g' = (k', b')" by (cases g')
  from Cons.hyps(1) have k: "k' = k" and m: "mset b = mset b'" by (simp_all add: g g')
  from m have "length b = length b'" by (rule mset_eq_length)
  moreover from m have "sort b = sort b'" by (rule sort_mset_cong)
  ultimately show ?case using Cons.IH by (simp add: g g' k split: sum.split prod.split)
qed

subsection \<open>The grouper\<close>

lemma bucket_dd_append:
  "bucket (dd_append k v d) k' = (if k' = k then bucket d k @ [v] else bucket d k')"
  by (induction d) (auto simp: bucket_def)

lemma map_fst_dd_append:
  "map fst (dd_append k v d) = (if k \<in> set (map fst d) then map fst d else map fst d @ [k])"
  by (induction d) (auto simp: rev_image_eqI)

lemma keys_dd_append: "fst ` set (dd_append k v d) = insert k (fst ` set d)"
  using arg_cong[OF map_fst_dd_append[of k v d], of set] by (auto split: if_splits)

lemma distinct_dd_append:
  "distinct (map fst d) \<Longrightarrow> distinct (map fst (dd_append k v d))"
  by (simp add: map_fst_dd_append)

lemma mset_ids_dd_append: "mset (ids_of (dd_append k v d)) = add_mset v (mset (ids_of d))"
  by (induction d) (auto simp: ids_of_def)

lemma group_loop_step:
  "col_notes s i = Some n \<Longrightarrow>
   group_loop w s (i # is) d =
     (case note_key w s i of None \<Rightarrow> group_loop w s is d
      | Some k \<Rightarrow> group_loop w s is (dd_append k i d))"
  by (simp add: getNote_def note_key_def)

lemma group_loop_present:
  "group_loop w s is d = Inr gs \<Longrightarrow> i \<in> set is \<Longrightarrow> col_notes s i \<noteq> None"
proof (induction "is" arbitrary: d)
  case Nil
  then show ?case by simp
next
  case (Cons j "is")
  then show ?case
    by (cases "col_notes s j") (auto simp: getNote_def split: if_splits option.splits)
qed

lemma group_loop_total:
  "\<forall>i\<in>set is. col_notes s i \<noteq> None \<Longrightarrow> \<exists>gs. group_loop w s is d = Inr gs"
proof (induction "is" arbitrary: d)
  case Nil
  then show ?case by simp
next
  case (Cons j "is")
  then obtain n where n: "col_notes s j = Some n" by auto
  from Cons show ?case
    by (simp add: group_loop_step[OF n] del: group_loop.simps(2) split: option.splits)
qed

lemma group_loop_bucket:
  "group_loop w s is d = Inr gs \<Longrightarrow>
   bucket gs k = bucket d k @ filter (\<lambda>i. note_key w s i = Some k) is"
proof (induction "is" arbitrary: d)
  case Nil
  then show ?case by simp
next
  case (Cons j "is")
  from Cons.prems obtain n where n: "col_notes s j = Some n"
    using group_loop_present[of w s "j # is" d gs j] by auto
  show ?case
  proof (cases "note_key w s j")
    case None
    with Cons.prems have "group_loop w s is d = Inr gs" by (simp add: group_loop_step[OF n] del: group_loop.simps(2))
    then show ?thesis using None by (simp add: Cons.IH)
  next
    case (Some k')
    with Cons.prems have "group_loop w s is (dd_append k' j d) = Inr gs"
      by (simp add: group_loop_step[OF n] del: group_loop.simps(2))
    then have "bucket gs k = bucket (dd_append k' j d) k @ filter (\<lambda>i. note_key w s i = Some k) is"
      by (rule Cons.IH)
    then show ?thesis using Some by (auto simp: bucket_dd_append)
  qed
qed

lemma group_loop_keys:
  "group_loop w s is d = Inr gs \<Longrightarrow>
   distinct (map fst d) \<Longrightarrow> distinct (map fst gs)"
proof (induction "is" arbitrary: d)
  case Nil
  then show ?case by simp
next
  case (Cons j "is")
  from Cons.prems obtain n where n: "col_notes s j = Some n"
    using group_loop_present[of w s "j # is" d gs j] by auto
  from Cons show ?case
    by (cases "note_key w s j") (auto simp: group_loop_step[OF n] distinct_dd_append simp del: group_loop.simps(2))
qed

lemma group_loop_mset:
  "group_loop w s is d = Inr gs \<Longrightarrow>
   mset (ids_of gs) = mset (ids_of d) + mset (filter (\<lambda>i. note_key w s i \<noteq> None) is)"
proof (induction "is" arbitrary: d)
  case Nil
  then show ?case by simp
next
  case (Cons j "is")
  from Cons.prems obtain n where n: "col_notes s j = Some n"
    using group_loop_present[of w s "j # is" d gs j] by auto
  from Cons show ?case
    by (cases "note_key w s j") (auto simp: group_loop_step[OF n] mset_ids_dd_append simp del: group_loop.simps(2))
qed

lemma group_loop_display:
  "group_loop w s is d = Inr gs \<Longrightarrow>
   (\<forall>key\<in>fst ` set d. \<exists>disp. key_display w key = Inr disp) \<Longrightarrow>
   (\<forall>key\<in>fst ` set gs. \<exists>disp. key_display w key = Inr disp)"
proof (induction "is" arbitrary: d)
  case Nil
  then show ?case by simp
next
  case (Cons j "is")
  from Cons.prems obtain n where n: "col_notes s j = Some n"
    using group_loop_present[of w s "j # is" d gs j] by auto
  show ?case
  proof (cases "note_key w s j")
    case None
    with Cons show ?thesis by (simp add: group_loop_step[OF n] del: group_loop.simps(2))
  next
    case (Some k')
    then have "get_dedup_key w n = Some k'"
      using n by (simp add: note_key_def split: if_splits)
    then have "\<exists>disp. key_display w k' = Inr disp"
      by (auto simp: get_dedup_key_def key_display_def split: if_splits)
    then have "\<forall>key\<in>fst ` set (dd_append k' j d). \<exists>disp. key_display w key = Inr disp"
      using Cons.prems(2) by (simp add: keys_dd_append)
    moreover from Cons.prems(1) Some have "group_loop w s is (dd_append k' j d) = Inr gs"
      by (simp add: group_loop_step[OF n] del: group_loop.simps(2))
    ultimately show ?thesis by (rule Cons.IH[rotated])
  qed
qed

lemma nonempty_dd_append:
  "\<forall>(k, b)\<in>set d. b \<noteq> [] \<Longrightarrow> \<forall>(k, b)\<in>set (dd_append k' v d). b \<noteq> []"
  by (induction d) (auto split: if_splits)

lemma group_loop_nonempty:
  "group_loop w s is d = Inr gs \<Longrightarrow> \<forall>(k, b)\<in>set d. b \<noteq> [] \<Longrightarrow> \<forall>(k, b)\<in>set gs. b \<noteq> []"
proof (induction "is" arbitrary: d)
  case Nil
  then show ?case by simp
next
  case (Cons j "is")
  from Cons.prems obtain n where n: "col_notes s j = Some n"
    using group_loop_present[of w s "j # is" d gs j] by auto
  show ?case
  proof (cases "note_key w s j")
    case None
    with Cons show ?thesis by (simp add: group_loop_step[OF n] del: group_loop.simps(2))
  next
    case (Some k')
    with Cons.prems(1) have "group_loop w s is (dd_append k' j d) = Inr gs"
      by (simp add: group_loop_step[OF n] del: group_loop.simps(2))
    moreover have "\<forall>(k, b)\<in>set (dd_append k' j d). b \<noteq> []"
      using Cons.prems(2) by (rule nonempty_dd_append)
    ultimately show ?thesis by (rule Cons.IH)
  qed
qed

lemma in_groups_bucket:
  "distinct (map fst gs) \<Longrightarrow> (k, b) \<in> set gs \<Longrightarrow> bucket gs k = b"
  by (simp add: bucket_def)

lemma bucket_in_groups:
  "bucket gs k \<noteq> [] \<Longrightarrow> (k, bucket gs k) \<in> set gs"
  by (auto simp: bucket_def split: option.splits dest: map_of_SomeD)

lemma group_duplicates_buckets:
  assumes "group_duplicates w s note_ids = Inr gs"
  shows "distinct (map fst gs)"
    and "(k, b) \<in> set gs \<Longrightarrow> b = filter (\<lambda>i. note_key w s i = Some k) note_ids"
    and "mset (ids_of gs) = mset (filter (\<lambda>i. note_key w s i \<noteq> None) note_ids)"
    and "bucket gs k = filter (\<lambda>i. note_key w s i = Some k) note_ids"
proof -
  from assms have g: "group_loop w s note_ids [] = Inr gs" by (simp add: group_duplicates_def)
  from group_loop_keys[OF g] show d: "distinct (map fst gs)" by simp
  from group_loop_bucket[OF g, of k]
  show bk: "bucket gs k = filter (\<lambda>i. note_key w s i = Some k) note_ids"
    by (simp add: bucket_def)
  from group_loop_mset[OF g]
  show "mset (ids_of gs) = mset (filter (\<lambda>i. note_key w s i \<noteq> None) note_ids)"
    by (simp add: ids_of_def)
  show "b = filter (\<lambda>i. note_key w s i = Some k) note_ids" if "(k, b) \<in> set gs"
    using in_groups_bucket[OF d that] bk by simp
qed

lemma targets_subset: "set (targets gs) \<subseteq> set (ids_of gs)"
proof (induction gs)
  case Nil
  then show ?case by (simp add: ids_of_def)
next
  case (Cons g gs)
  obtain k b where g: "g = (k, b)" by (cases g)
  have "set (drop 1 (sort b)) \<subseteq> set b" using set_drop_subset[of 1 "sort b"] by simp
  with Cons show ?case by (auto simp: g ids_of_def)
qed

subsection \<open>Which ids the tagger fetches\<close>


lemma length_targets:
  "length (targets gs) = sum_list (map (\<lambda>(key, b). if 2 \<le> length b then length b - 1 else 0) gs)"
  by (induction gs) (auto simp: targets_def)





lemma group_duplicates_ids:
  assumes "group_duplicates w s note_ids = Inr gs"
  shows "set (ids_of gs) = {i \<in> set note_ids. note_key w s i \<noteq> None}"
proof -
  from group_duplicates_buckets(3)[OF assms]
  have "set (ids_of gs) = set (filter (\<lambda>i. note_key w s i \<noteq> None) note_ids)"
    by (rule mset_eq_setD)
  then show ?thesis by simp
qed

lemma group_duplicates_grouper_map:
  assumes "distinct note_ids" and "group_duplicates w s note_ids = Inr gs"
  shows "grouper_map w s gs"
proof -
  from assms(2) have g: "group_loop w s note_ids [] = Inr gs" by (simp add: group_duplicates_def)
  have "distinct (filter (\<lambda>i. note_key w s i \<noteq> None) note_ids)" using assms(1) by simp
  then have d: "distinct (ids_of gs)"
    using group_duplicates_buckets(3)[OF assms(2)] by (metis mset_eq_imp_distinct_iff)
  have "col_notes s i \<noteq> None" if "i \<in> set (ids_of gs)" for i
    using that group_duplicates_ids[OF assms(2)] by (auto simp: note_key_def split: option.splits)
  then have p: "list_all (\<lambda>i. col_notes s i \<noteq> None) (ids_of gs)" by (simp add: list_all_iff)
  have disp: "\<forall>key\<in>fst ` set gs. \<exists>disp. key_display w key = Inr disp"
    using group_loop_display[OF g] by simp
  have "selected_key w = COMBINE_ALL_OPTION \<or> [] \<notin> fst ` set gs"
  proof (cases "selected_key w = COMBINE_ALL_OPTION")
    case True
    then show ?thesis by simp
  next
    case False
    then have "key_display w [] = Inl (IndexError ''tuple index out of range'')"
      by (simp add: key_display_def)
    with disp show ?thesis by force
  qed
  with d p show ?thesis by (simp add: grouper_map_def)
qed

lemma group_loop_fails:
  "group_loop w s is d = Inl e \<Longrightarrow>
   \<exists>i\<in>set is. col_notes s i = None \<and> e = NotFoundError (missing s i)"
proof (induction "is" arbitrary: d)
  case Nil
  then show ?case by simp
next
  case (Cons j "is")
  show ?case
  proof (cases "col_notes s j")
    case None
    with Cons.prems show ?thesis by (simp add: getNote_def)
  next
    case (Some n)
    from Cons.prems have "\<exists>d'. group_loop w s is d' = Inl e"
      by (auto simp: group_loop_step[OF Some] simp del: group_loop.simps(2) split: option.splits)
    with Cons.IH show ?thesis by auto
  qed
qed

subsection \<open>The run\<close>

lemma col_notes_showInfo [simp]: "col_notes (showInfo m s) = col_notes s"
  by (simp add: showInfo_def)

lemma col_notes_reset [simp]: "col_notes (reset s) = col_notes s"
  by (simp add: reset_def)

lemma apply_tag_frame:
  "i \<notin> set (ids_of gs) \<Longrightarrow>
   col_notes (snd (apply_tag_to_duplicates w gs t s)) i = col_notes s i"
  using apply_loop_frame[of i gs w t "(0, [])" s] targets_subset[of gs]
  by (auto simp: apply_tag_to_duplicates_def)

lemma tag_duplicates_untouched:
  assumes "\<And>note_ids gs. findNotes s (anki_filter w) = Inr note_ids \<Longrightarrow>
             group_duplicates w s note_ids = Inr gs \<Longrightarrow> i \<notin> set (ids_of gs)"
  shows "col_notes (snd (tag_duplicates w s)) i = col_notes s i"
proof (cases "findNotes s (anki_filter w)")
  case (Inl e)
  then show ?thesis by (simp add: tag_duplicates_def collect_note_ids_def)
next
  case ids: (Inr note_ids)
  show ?thesis
  proof (cases "group_duplicates w s note_ids")
    case (Inl e)
    with ids show ?thesis by (simp add: tag_duplicates_def collect_note_ids_def)
  next
    case (Inr gs)
    let ?t = "if tag_name w = [] then DEFAULT_TAG_NAME else tag_name w"
    obtain r s2 where r: "apply_tag_to_duplicates w gs ?t s = (r, s2)"
      by (cases "apply_tag_to_duplicates w gs ?t s")
    have "col_notes s2 i = col_notes s i"
      using apply_tag_frame[OF assms[OF ids Inr], of w ?t s] r by simp
    then show ?thesis
      using ids Inr r
      by (cases r) (auto simp: tag_duplicates_def collect_note_ids_def Let_def split: prod.splits)
  qed
qed

lemma tag_duplicates_skips_unkeyed:
  assumes "note_key w s i = None"
  shows "col_notes (snd (tag_duplicates w s)) i = col_notes s i"
  using assms by (intro tag_duplicates_untouched) (simp add: group_duplicates_ids)

lemma index_of_map_of:
  "map_of fs k = Some v \<Longrightarrow> k \<in> set (map fst fs) \<and> map snd fs ! index_of k (map fst fs) = v"
  by (induction fs) (auto split: if_splits)

lemma get_dedup_key_field:
  assumes "selected_key w \<noteq> COMBINE_ALL_OPTION"
  shows "get_dedup_key w n = map_option (\<lambda>v. [v]) (map_of (note_fields n) (selected_key w))"
proof (cases "map_of (note_fields n) (selected_key w)")
  case None
  then have "selected_key w \<notin> set (note_keys n)"
    by (simp add: note_keys_def map_of_eq_None_iff)
  with assms None show ?thesis by (simp add: get_dedup_key_def)
next
  case (Some v)
  from index_of_map_of[OF this] assms Some show ?thesis
    by (simp add: get_dedup_key_def note_keys_def note_values_def)
qed

lemma grouping_fetch_failure_reported:
  assumes "findNotes s (anki_filter w) = Inr note_ids" and "j \<in> set note_ids"
    and "col_notes s j = None"
  shows "\<exists>i\<in>set note_ids. col_notes s i = None \<and>
           tag_duplicates w s =
             (Inr None,
              s\<lparr>shown := shown s @ [''Error while locating duplicates: '' @ missing s i]\<rparr>)"
proof (cases "group_duplicates w s note_ids")
  case (Inl e)
  then obtain i where "i \<in> set note_ids" "col_notes s i = None" "e = NotFoundError (missing s i)"
    using group_loop_fails[of w s note_ids "[]" e] by (auto simp: group_duplicates_def)
  with assms(1) Inl show ?thesis
    by (intro bexI[of _ i]) (simp_all add: tag_duplicates_def collect_note_ids_def showInfo_def)
next
  case (Inr gs)
  then have "col_notes s j \<noteq> None"
    using group_loop_present[of w s note_ids "[]" gs j] assms(2) by (simp add: group_duplicates_def)
  with assms(3) show ?thesis by simp
qed

lemma tagger_returns_after_grouper:
  assumes "group_duplicates w s note_ids = Inr gs"
  shows "\<exists>c d s'. apply_tag_to_duplicates w gs t s = (Inr (c, d), s')"
proof -
  from assms have g: "group_loop w s note_ids [] = Inr gs" by (simp add: group_duplicates_def)
  have "col_notes s i \<noteq> None" if "i \<in> set (ids_of gs)" for i
    using that group_duplicates_ids[OF assms] by (auto simp: note_key_def split: option.splits)
  then have "set (targets gs) \<subseteq> dom (col_notes s)" using targets_subset[of gs] by auto
  moreover have "\<exists>disp. key_display w key = Inr disp" if "(key, b) \<in> set gs" for key b
    using group_loop_display[OF g] that by force
  ultimately have "\<exists>d' s'. apply_loop w t gs (0, []) s = (Inr (0 + length (targets gs), d'), s') \<and>
           (\<forall>i\<in>set (targets gs). carries_label s' t i)"
    by (intro apply_loop_success) auto
  then show ?thesis unfolding apply_tag_to_duplicates_def by blast
qed

text \<open>
  As long as the collection is the one the grouper read, every id the tagger fetches was
  fetched by the grouper before: the run returns, with a summary or with \<^verbatim>\<open>None\<close>.
\<close>

lemma tag_duplicates_returns: "\<exists>r. fst (tag_duplicates w s) = Inr r"
proof (cases "findNotes s (anki_filter w)")
  case (Inl e)
  then show ?thesis by (simp add: tag_duplicates_def collect_note_ids_def)
next
  case ids: (Inr note_ids)
  show ?thesis
  proof (cases "group_duplicates w s note_ids")
    case (Inl e)
    with ids show ?thesis by (simp add: tag_duplicates_def collect_note_ids_def)
  next
    case (Inr gs)
    from tagger_returns_after_grouper[OF this]
    obtain c d s' where
      "apply_tag_to_duplicates w gs (if tag_name w = [] then DEFAULT_TAG_NAME else tag_name w) s
         = (Inr (c, d), s')" by blast
    with ids Inr show ?thesis
      by (simp add: tag_duplicates_def collect_note_ids_def)
  qed
qed

lemmas run_defs = tag_duplicates_def collect_note_ids_def group_duplicates_def
  apply_tag_to_duplicates_def getNote_def get_dedup_key_def note_values_def note_keys_def
  key_display_def flush_def addTag_def split_tags_def add_missing_def has_tag_def casefold_def
  lower_char_def showInfo_def reset_def

lemma grouping_fetch_failure_reported_demo:
  "tag_duplicates (demo_window ''deck:Stale'' ''Front'') demo_host =
     (Inr None, demo_host\<lparr>shown := [''Error while locating duplicates: note not found'']\<rparr>)"
  by (simp add: run_defs demo_defs)

section \<open>The properties of the specification\<close>




text \<open>
  C2. With the sentinel as the selected key, the key of a note is the list of its field
  contents in the order of its fields. Two notes with the same contents in the same order
  have the same key whatever their field names are, and when both have cards and both ids
  are in the input of the grouper they end up in one bucket.
\<close>

theorem combine_all_key_is_value_tuple:
  assumes "selected_key w = COMBINE_ALL_OPTION"
  shows "get_dedup_key w n = Some (map snd (note_fields n)) \<and>
         (map snd (note_fields n) = map snd (note_fields n') \<longrightarrow>
            get_dedup_key w n = get_dedup_key w n' \<and>
            (\<forall>s note_ids gs i j.
               group_duplicates w s note_ids = Inr gs \<and> i \<in> set note_ids \<and> j \<in> set note_ids \<and>
               col_notes s i = Some n \<and> col_notes s j = Some n' \<and> cards n \<noteq> [] \<and> cards n' \<noteq> []
               \<longrightarrow> (\<exists>key b. (key, b) \<in> set gs \<and> i \<in> set b \<and> j \<in> set b)))"
proof (intro conjI impI allI)
  show k: "get_dedup_key w n = Some (map snd (note_fields n))" for n
    using assms by (simp add: get_dedup_key_def note_values_def)
  assume eq: "map snd (note_fields n) = map snd (note_fields n')"
  then show "get_dedup_key w n = get_dedup_key w n'" by (simp add: k)
  fix s note_ids gs i j
  assume a: "group_duplicates w s note_ids = Inr gs \<and> i \<in> set note_ids \<and> j \<in> set note_ids \<and>
               col_notes s i = Some n \<and> col_notes s j = Some n' \<and> cards n \<noteq> [] \<and> cards n' \<noteq> []"
  let ?k = "map snd (note_fields n)"
  from a eq have "note_key w s i = Some ?k" "note_key w s j = Some ?k"
    by (simp_all add: note_key_def k)
  with a have "i \<in> set (bucket gs ?k)" "j \<in> set (bucket gs ?k)"
    using group_duplicates_buckets(4)[of w s note_ids gs ?k] by simp_all
  moreover from this have "(?k, bucket gs ?k) \<in> set gs"
    by (intro bucket_in_groups) auto
  ultimately show "\<exists>key b. (key, b) \<in> set gs \<and> i \<in> set b \<and> j \<in> set b" by blast
qed

theorem combine_all_key_is_value_tuple_witness:
  "selected_key (demo_window ''deck:All'' COMBINE_ALL_OPTION) = COMBINE_ALL_OPTION \<and>
   get_dedup_key (demo_window ''deck:All'' COMBINE_ALL_OPTION)
     (demo_note [(''Front'', ''A''), (''Back'', ''X'')] [11] []) = Some [''A'', ''X''] \<and>
   get_dedup_key (demo_window ''deck:All'' COMBINE_ALL_OPTION)
     (demo_note [(''Front'', ''A''), (''Back'', ''X'')] [11] []) =
   get_dedup_key (demo_window ''deck:All'' COMBINE_ALL_OPTION)
     (demo_note [(''Question'', ''A''), (''Answer'', ''X'')] [14] []) \<and>
   (\<exists>gs key b. group_duplicates (demo_window ''deck:All'' COMBINE_ALL_OPTION) demo_host
        [1, 2, 3, 4, 5] = Inr gs \<and> (key, b) \<in> set gs \<and> 1 \<in> set b \<and> 4 \<in> set b)"
proof -
  let ?w = "demo_window ''deck:All'' COMBINE_ALL_OPTION"
  let ?n = "demo_note [(''Front'', ''A''), (''Back'', ''X'')] [11] []"
  let ?n' = "demo_note [(''Question'', ''A''), (''Answer'', ''X'')] [14] []"
  have h: "selected_key ?w = COMBINE_ALL_OPTION" by (simp add: demo_window_def)
  note T = combine_all_key_is_value_tuple[OF h, of ?n ?n']
  have v: "map snd (note_fields ?n) = map snd (note_fields ?n')" by (simp add: demo_note_def)
  from T have k: "get_dedup_key ?w ?n = Some [''A'', ''X'']" by (simp add: demo_note_def)
  from T v have e: "get_dedup_key ?w ?n = get_dedup_key ?w ?n'" by blast
  obtain gs where g: "group_duplicates ?w demo_host [1, 2, 3, 4, 5] = Inr gs"
    by (simp add: run_defs demo_defs)
  have "col_notes demo_host 1 = Some ?n" "col_notes demo_host 4 = Some ?n'"
    "cards ?n \<noteq> []" "cards ?n' \<noteq> []"
    by (simp_all add: demo_defs)
  with T v g have "\<exists>key b. (key, b) \<in> set gs \<and> 1 \<in> set b \<and> 4 \<in> set b"
    by (elim conjE impE allE[of _ demo_host] allE[of _ "[1, 2, 3, 4, 5]"] allE[of _ gs]
        allE[of _ 1] allE[of _ 4]) simp_all
  with h k e g show ?thesis by blast
qed

text \<open>
  C3. With a field name as the selected key (not the sentinel): a note that has a field of
  exactly this name gets the one-element key holding the content of that field; a note
  without such a field gets no key, its id is in no bucket of any map the grouper returns,
  and a run leaves its stored note as it was.
\<close>

theorem named_field_key_or_excluded:
  assumes "selected_key w \<noteq> COMBINE_ALL_OPTION"
  shows "(selected_key w \<in> fst ` set (note_fields n) \<longrightarrow>
            (\<exists>v. map_of (note_fields n) (selected_key w) = Some v \<and> get_dedup_key w n = Some [v])) \<and>
         (selected_key w \<notin> fst ` set (note_fields n) \<longrightarrow>
            get_dedup_key w n = None \<and>
            (\<forall>s i note_ids gs.
               col_notes s i = Some n \<and> group_duplicates w s note_ids = Inr gs
               \<longrightarrow> i \<notin> set (concat (map snd gs))) \<and>
            (\<forall>s i. col_notes s i = Some n \<longrightarrow> col_notes (snd (tag_duplicates w s)) i = Some n))"
proof -
  have present: "\<exists>v. map_of (note_fields n) (selected_key w) = Some v \<and> get_dedup_key w n = Some [v]"
    if "selected_key w \<in> fst ` set (note_fields n)"
  proof -
    from that obtain v where "map_of (note_fields n) (selected_key w) = Some v"
      by (metis map_of_eq_None_iff not_Some_eq)
    then show ?thesis by (simp add: get_dedup_key_field[OF assms])
  qed
  have absent: "get_dedup_key w n = None \<and>
            (\<forall>s i note_ids gs.
               col_notes s i = Some n \<and> group_duplicates w s note_ids = Inr gs
               \<longrightarrow> i \<notin> set (concat (map snd gs))) \<and>
            (\<forall>s i. col_notes s i = Some n \<longrightarrow> col_notes (snd (tag_duplicates w s)) i = Some n)"
    if "selected_key w \<notin> fst ` set (note_fields n)"
  proof -
    from that have "map_of (note_fields n) (selected_key w) = None"
      by (simp add: map_of_eq_None_iff)
    then have none: "get_dedup_key w n = None" by (simp add: get_dedup_key_field[OF assms])
    have key: "note_key w s i = None" if "col_notes s i = Some n" for s i
      using that none by (simp add: note_key_def)
    have "i \<notin> set (concat (map snd gs))"
      if "col_notes s i = Some n" "group_duplicates w s note_ids = Inr gs" for s i note_ids gs
      using key[OF that(1)] group_duplicates_ids[OF that(2)] by (simp add: ids_of_def)
    moreover have "col_notes (snd (tag_duplicates w s)) i = Some n" if "col_notes s i = Some n" for s i
      using tag_duplicates_skips_unkeyed[OF key[OF that]] that by simp
    ultimately show ?thesis using none by blast
  qed
  from present absent show ?thesis by blast
qed

theorem named_field_key_or_excluded_witness:
  "selected_key (demo_window ''deck:D'' ''Front'') \<noteq> COMBINE_ALL_OPTION \<and>
   get_dedup_key (demo_window ''deck:D'' ''Front'')
     (demo_note [(''Front'', ''A''), (''Back'', ''X'')] [11] []) = Some [''A''] \<and>
   selected_key (demo_window ''deck:D'' ''front'') \<noteq> COMBINE_ALL_OPTION \<and>
   get_dedup_key (demo_window ''deck:D'' ''front'')
     (demo_note [(''Front'', ''A''), (''Back'', ''X'')] [11] []) = None \<and>
   (\<exists>gs. group_duplicates (demo_window ''deck:D'' ''front'') demo_host [1, 2, 3] = Inr gs \<and>
         1 \<notin> set (concat (map snd gs))) \<and>
   col_notes (snd (tag_duplicates (demo_window ''deck:D'' ''front'') demo_host)) 1 =
     Some (demo_note [(''Front'', ''A''), (''Back'', ''X'')] [11] [])"
proof -
  let ?n = "demo_note [(''Front'', ''A''), (''Back'', ''X'')] [11] []"
  have h1: "selected_key (demo_window ''deck:D'' ''Front'') \<noteq> COMBINE_ALL_OPTION"
    and h2: "selected_key (demo_window ''deck:D'' ''front'') \<noteq> COMBINE_ALL_OPTION"
    by (simp_all add: demo_defs)
  from named_field_key_or_excluded[OF h1, of ?n]
  have a: "get_dedup_key (demo_window ''deck:D'' ''Front'') ?n = Some [''A'']"
    by (simp add: demo_defs)
  have absent: "selected_key (demo_window ''deck:D'' ''front'') \<notin> fst ` set (note_fields ?n)"
    by (simp add: demo_defs)
  note T = named_field_key_or_excluded[OF h2, of ?n, THEN conjunct2, rule_format, OF absent]
  from T have b: "get_dedup_key (demo_window ''deck:D'' ''front'') ?n = None" by blast
  have n1: "col_notes demo_host 1 = Some ?n" by (simp add: demo_defs)
  obtain gs where g: "group_duplicates (demo_window ''deck:D'' ''front'') demo_host [1, 2, 3] = Inr gs"
    by (simp add: run_defs demo_defs)
  from T n1 g have c: "1 \<notin> set (concat (map snd gs))" by blast
  from T n1 have d: "col_notes (snd (tag_duplicates (demo_window ''deck:D'' ''front'') demo_host)) 1
      = Some ?n" by blast
  from h1 a h2 b g c d show ?thesis by blast
qed

text \<open>
  C4. A note without cards is in no bucket of any map the grouper returns, for every input
  list and every selected key, and a run leaves its stored note as it was.
\<close>

theorem cardless_note_never_grouped:
  assumes "col_notes s i = Some n" and "cards n = []"
  shows "(\<forall>note_ids gs. group_duplicates w s note_ids = Inr gs \<longrightarrow> i \<notin> set (concat (map snd gs))) \<and>
         col_notes (snd (tag_duplicates w s)) i = Some n"
proof -
  from assms have k: "note_key w s i = None" by (simp add: note_key_def)
  then have "i \<notin> set (concat (map snd gs))" if "group_duplicates w s note_ids = Inr gs" for note_ids gs
    using group_duplicates_ids[OF that] by (simp add: ids_of_def)
  moreover have "col_notes (snd (tag_duplicates w s)) i = Some n"
    using tag_duplicates_skips_unkeyed[OF k] assms(1) by simp
  ultimately show ?thesis by blast
qed

theorem cardless_note_never_grouped_witness:
  "col_notes demo_host 5 = Some (demo_note [(''Front'', ''A''), (''Back'', ''X'')] [] []) \<and>
   cards (demo_note [(''Front'', ''A''), (''Back'', ''X'')] [] []) = [] \<and>
   (\<exists>gs. group_duplicates (demo_window ''deck:All'' COMBINE_ALL_OPTION) demo_host
           [1, 2, 3, 4, 5] = Inr gs \<and> 5 \<notin> set (concat (map snd gs))) \<and>
   col_notes (snd (tag_duplicates (demo_window ''deck:All'' COMBINE_ALL_OPTION) demo_host)) 5 =
     Some (demo_note [(''Front'', ''A''), (''Back'', ''X'')] [] [])"
proof -
  let ?w = "demo_window ''deck:All'' COMBINE_ALL_OPTION"
  let ?n = "demo_note [(''Front'', ''A''), (''Back'', ''X'')] [] []"
  have h1: "col_notes demo_host 5 = Some ?n" and h2: "cards ?n = []"
    by (simp_all add: demo_defs)
  note T = cardless_note_never_grouped[OF h1 h2, of ?w]
  obtain gs where g: "group_duplicates ?w demo_host [1, 2, 3, 4, 5] = Inr gs"
    by (simp add: run_defs demo_defs)
  with T have "5 \<notin> set (concat (map snd gs))" by blast
  with h1 h2 g T show ?thesis by blast
qed

text \<open>
  C5. For distinct input ids that all exist, the grouper returns a map: its keys are
  pairwise different, no id occurs twice in it (so no id is in two buckets), no bucket is
  empty, the bucket of a key holds exactly the input ids that have cards and this key, in
  the order of the input, and every input id with cards and a key is in the bucket of
  its key.
\<close>

theorem grouping_is_partition_in_input_order:
  assumes "distinct note_ids" and "\<forall>i\<in>set note_ids. col_notes s i \<noteq> None"
  shows "\<exists>gs. group_duplicates w s note_ids = Inr gs \<and>
              distinct (map fst gs) \<and> distinct (concat (map snd gs)) \<and>
              (\<forall>(key, b)\<in>set gs.
                 b \<noteq> [] \<and> b = filter (\<lambda>i. note_key w s i = Some key) note_ids) \<and>
              (\<forall>i\<in>set note_ids. \<forall>key. note_key w s i = Some key \<longrightarrow>
                 (\<exists>b. (key, b) \<in> set gs \<and> i \<in> set b))"
proof -
  from group_loop_total[OF assms(2), of w "[]"]
  obtain gs where g: "group_duplicates w s note_ids = Inr gs"
    by (auto simp: group_duplicates_def)
  have "distinct (ids_of gs)"
    using group_duplicates_grouper_map[OF assms(1) g] by (simp add: grouper_map_def)
  then have d: "distinct (concat (map snd gs))" by (simp add: ids_of_def)
  have ne: "b \<noteq> []" if "(key, b) \<in> set gs" for key b
    using group_loop_nonempty[of w s note_ids "[]" gs] g that
    by (auto simp: group_duplicates_def)
  have bk: "b = filter (\<lambda>i. note_key w s i = Some key) note_ids" if "(key, b) \<in> set gs" for key b
    by (rule group_duplicates_buckets(2)[OF g that])
  have filed: "\<exists>b. (key, b) \<in> set gs \<and> i \<in> set b"
    if "i \<in> set note_ids" "note_key w s i = Some key" for i key
  proof -
    from that have "i \<in> set (bucket gs key)"
      by (simp add: group_duplicates_buckets(4)[OF g])
    moreover from this have "(key, bucket gs key) \<in> set gs"
      by (intro bucket_in_groups) auto
    ultimately show ?thesis by blast
  qed
  from g group_duplicates_buckets(1)[OF g] d ne bk filed show ?thesis by blast
qed

theorem grouping_is_partition_in_input_order_witness:
  "distinct [2, 3, 1 :: int] \<and> list_all (\<lambda>i. col_notes demo_host i \<noteq> None) [2, 3, 1] \<and>
   (\<exists>gs. group_duplicates (demo_window ''deck:D'' ''Front'') demo_host [2, 3, 1] = Inr gs \<and>
         distinct (map fst gs) \<and> distinct (concat (map snd gs)) \<and>
         list_all (\<lambda>(key, b). b \<noteq> [] \<and>
            b = filter (\<lambda>i. note_key (demo_window ''deck:D'' ''Front'') demo_host i = Some key)
                  [2, 3, 1]) gs \<and>
         (\<exists>b. ([''A''], b) \<in> set gs \<and> 1 \<in> set b) \<and>
         (\<exists>b. ([''B''], b) \<in> set gs \<and> 3 \<in> set b))"
proof -
  let ?w = "demo_window ''deck:D'' ''Front''"
  have h1: "distinct [2, 3, 1 :: int]" by simp
  have h2: "\<forall>i\<in>set [2, 3, 1]. col_notes demo_host i \<noteq> None" by (simp add: demo_defs)
  have k1: "note_key ?w demo_host 1 = Some [''A'']" and k3: "note_key ?w demo_host 3 = Some [''B'']"
    by (simp_all add: note_key_def get_dedup_key_def note_keys_def note_values_def demo_defs)
  from grouping_is_partition_in_input_order[OF h1 h2, of ?w]
  obtain gs where g: "group_duplicates ?w demo_host [2, 3, 1] = Inr gs"
    and d: "distinct (map fst gs)" "distinct (concat (map snd gs))"
    and b: "\<forall>(key, b)\<in>set gs. b \<noteq> [] \<and>
              b = filter (\<lambda>i. note_key ?w demo_host i = Some key) [2, 3, 1]"
    and f: "\<forall>i\<in>set [2, 3, 1 :: int]. \<forall>key. note_key ?w demo_host i = Some key \<longrightarrow>
              (\<exists>b. (key, b) \<in> set gs \<and> i \<in> set b)"
    by blast
  from f k1 have "\<exists>b. ([''A''], b) \<in> set gs \<and> 1 \<in> set b" by simp
  moreover from f k3 have "\<exists>b. ([''B''], b) \<in> set gs \<and> 3 \<in> set b" by simp
  moreover from b have "list_all (\<lambda>(key, b). b \<noteq> [] \<and>
            b = filter (\<lambda>i. note_key ?w demo_host i = Some key) [2, 3, 1]) gs"
    unfolding list_all_iff .
  ultimately show ?thesis using h1 h2 g d by (auto simp: list_all_iff)
qed

text \<open>
  C6. When the search rejects the filter, the run returns \<^verbatim>\<open>None\<close> without a summary,
  and the host differs from before only by the one message that reports the error: no note
  is written, nothing is counted, no reset is triggered.
\<close>

theorem invalid_filter_aborts_run:
  assumes "findNotes s (anki_filter w) = Inl e"
  shows "tag_duplicates w s =
           (Inr None, s\<lparr>shown := shown s @ [''Error executing filter: '' @ str_exn e]\<rparr>)"
  using assms by (simp add: tag_duplicates_def collect_note_ids_def showInfo_def)

theorem invalid_filter_aborts_run_witness:
  "findNotes demo_host (anki_filter (demo_window ''deck:('' ''Front'')) =
     Inl (FilterError ''bad filter'') \<and>
   tag_duplicates (demo_window ''deck:('' ''Front'') demo_host =
     (Inr None, demo_host\<lparr>shown := [''Error executing filter: bad filter'']\<rparr>)"
proof -
  have h: "findNotes demo_host (anki_filter (demo_window ''deck:('' ''Front''))
             = Inl (FilterError ''bad filter'')"
    by (simp add: demo_defs)
  have "shown demo_host = []" by (simp add: demo_defs)
  with invalid_filter_aborts_run[OF h] h show ?thesis by simp
qed

text \<open>
  C7. The tagger on a bucket whose last id has no note in the collection: the
  \<^verbatim>\<open>NotFoundError\<close> leaves the tagger as an exception, no message is shown, and the tag
  written to note 2 before the failure stays. Nothing between the tagger and the caller of
  the run catches the exception (\<open>tag_duplicates\<close> passes \<open>Inl e\<close> on), unlike the
  failure of a fetch in the grouper (\<open>grouping_fetch_failure_reported\<close>).
\<close>

theorem tagger_fetch_failure_escapes:
  "fst (apply_tag_to_duplicates (demo_window ''deck:Stale'' ''Front'') [([''A''], [1, 2, 9])]
          ''dup'' demo_host) = Inl (NotFoundError ''note not found'') \<and>
   shown (snd (apply_tag_to_duplicates (demo_window ''deck:Stale'' ''Front'') [([''A''], [1, 2, 9])]
          ''dup'' demo_host)) = [] \<and>
   labeled (snd (apply_tag_to_duplicates (demo_window ''deck:Stale'' ''Front'') [([''A''], [1, 2, 9])]
          ''dup'' demo_host)) ''dup'' 2"
  by (simp add: run_defs demo_defs labeled_def)

text \<open>
  C8. Running the tagger again on the same map, from the host the first run left, gives
  the same result (count and trace, or the same exception) and leaves that host as it is.
  A run of the tagger removes no tag from any note. The count of a run that returns is the
  sum of \<open>n - 1\<close> over the buckets of \<open>n \<ge> 2\<close> ids whatever tags the notes carried before:
  a note that carries the tag already is counted again.
\<close>

theorem labeling_twice_same_result:
  "apply_tag_to_duplicates w gs t (snd (apply_tag_to_duplicates w gs t s))
     = apply_tag_to_duplicates w gs t s \<and>
   (\<forall>i n. col_notes s i = Some n \<longrightarrow>
      (\<exists>n'. col_notes (snd (apply_tag_to_duplicates w gs t s)) i = Some n' \<and>
            set (tags n) \<subseteq> set (tags n'))) \<and>
   (\<forall>c d s'. apply_tag_to_duplicates w gs t s = (Inr (c, d), s') \<longrightarrow>
      c = sum_list (map (\<lambda>(key, b). if 2 \<le> length b then length b - 1 else 0) gs))"
proof (intro conjI allI impI)
  show "apply_tag_to_duplicates w gs t (snd (apply_tag_to_duplicates w gs t s))
          = apply_tag_to_duplicates w gs t s"
    by (rule apply_tag_idempotent)
next
  fix i n assume "col_notes s i = Some n"
  moreover have "only_adds_tags s (snd (apply_tag_to_duplicates w gs t s))"
    unfolding apply_tag_to_duplicates_def by (rule apply_loop_only_adds)
  ultimately show "\<exists>n'. col_notes (snd (apply_tag_to_duplicates w gs t s)) i = Some n' \<and>
            set (tags n) \<subseteq> set (tags n')"
    unfolding only_adds_tags_def by blast
next
  fix c d s' assume "apply_tag_to_duplicates w gs t s = (Inr (c, d), s')"
  then have "c = 0 + length (targets gs)"
    unfolding apply_tag_to_duplicates_def by (rule apply_loop_count)
  then show "c = sum_list (map (\<lambda>(key, b). if 2 \<le> length b then length b - 1 else 0) gs)"
    by (simp add: length_targets)
qed

theorem labeling_twice_same_result_witness:
  "col_notes (flush 2 (demo_note [(''Front'', ''A''), (''Back'', ''X'')] [12] [''dup'']) demo_host) 2
     = Some (demo_note [(''Front'', ''A''), (''Back'', ''X'')] [12] [''dup'']) \<and>
   (\<exists>n'. col_notes (snd (apply_tag_to_duplicates (demo_window ''deck:D'' ''Front'')
              [([''A''], [1, 2])] ''dup''
              (flush 2 (demo_note [(''Front'', ''A''), (''Back'', ''X'')] [12] [''dup'']) demo_host))) 2
           = Some n' \<and> ''dup'' \<in> set (tags n')) \<and>
   (\<exists>d s'. apply_tag_to_duplicates (demo_window ''deck:D'' ''Front'') [([''A''], [1, 2])] ''dup''
              (flush 2 (demo_note [(''Front'', ''A''), (''Back'', ''X'')] [12] [''dup'']) demo_host)
           = (Inr (1, d), s'))"
proof -
  let ?w = "demo_window ''deck:D'' ''Front''"
  let ?n = "demo_note [(''Front'', ''A''), (''Back'', ''X'')] [12] [''dup'']"
  let ?s = "flush 2 ?n demo_host"
  let ?gs = "[([''A''], [1, 2 :: int])]"
  note T = labeling_twice_same_result[of ?w ?gs "''dup''" ?s]
  have h: "col_notes ?s 2 = Some ?n" by (simp add: flush_def)
  with T obtain n' where n': "col_notes (snd (apply_tag_to_duplicates ?w ?gs ''dup'' ?s)) 2 = Some n'"
    "set (tags ?n) \<subseteq> set (tags n')" by blast
  then have l: "''dup'' \<in> set (tags n')" by (auto simp: demo_note_def)
  obtain c d s' where r: "apply_tag_to_duplicates ?w ?gs ''dup'' ?s = (Inr (c, d), s')"
    by (simp add: run_defs demo_defs)
  with T have "c = sum_list (map (\<lambda>(key, b). if 2 \<le> length b then length b - 1 else 0) ?gs)"
    by blast
  then have "c = 1" by simp
  with r h n'(1) l show ?thesis by blast
qed

text \<open>
  C9. When the search returns no id, the run returns the summary with count 0 and the
  configured tag (the default tag when none is configured), and the host differs from
  before only by the reset: no note is written and no message is shown.
\<close>

theorem empty_filter_result_summary:
  assumes "findNotes s (anki_filter w) = Inr []"
  shows "tag_duplicates w s =
           (Inr (Some (''Total: 0 notes tagged as '' @ [CHR 0x27]
                        @ (if tag_name w = [] then ''duplicate-card'' else tag_name w)
                        @ [CHR 0x27])),
            s\<lparr>resets := Suc (resets s)\<rparr>)"
  using assms
  by (simp add: tag_duplicates_def collect_note_ids_def group_duplicates_def
      apply_tag_to_duplicates_def summary_def reset_def DEFAULT_TAG_NAME_def
      str_nat.simps[of 0] digit_char_def)

theorem empty_filter_result_summary_witness:
  "findNotes demo_host (anki_filter ((demo_window ''deck:Empty'' ''Front'')\<lparr>tag_name := []\<rparr>))
     = Inr [] \<and>
   tag_duplicates ((demo_window ''deck:Empty'' ''Front'')\<lparr>tag_name := []\<rparr>) demo_host =
     (Inr (Some (''Total: 0 notes tagged as '' @ [CHR 0x27] @ ''duplicate-card'' @ [CHR 0x27])),
      demo_host\<lparr>resets := 1\<rparr>)"
proof -
  let ?w = "(demo_window ''deck:Empty'' ''Front'')\<lparr>tag_name := []\<rparr>"
  have h: "findNotes demo_host (anki_filter ?w) = Inr []" by (simp add: demo_defs)
  have "resets demo_host = 0" "tag_name ?w = []" by (simp_all add: demo_defs)
  with empty_filter_result_summary[OF h] h show ?thesis by simp
qed

text \<open>
  C10. Two maps with the same keys in the same order whose buckets hold the same ids, in
  whatever order, give the same result of the tagger and the same host afterwards.
\<close>

theorem labeling_ignores_order_within_buckets:
  assumes "list_all2 (\<lambda>(key, b) (key', b'). key = key' \<and> mset b = mset b') gs gs'"
  shows "apply_tag_to_duplicates w gs t s = apply_tag_to_duplicates w gs' t s"
  unfolding apply_tag_to_duplicates_def using assms by (rule apply_loop_perm)

theorem labeling_ignores_order_within_buckets_witness:
  "list_all2 (\<lambda>(key, b) (key', b'). key = key' \<and> mset b = mset b')
     [([''A''], [3, 1, 2 :: int])] [([''A''], [2, 3, 1])] \<and>
   apply_tag_to_duplicates (demo_window ''deck:D'' ''Front'') [([''A''], [3, 1, 2])] ''dup'' demo_host =
   apply_tag_to_duplicates (demo_window ''deck:D'' ''Front'') [([''A''], [2, 3, 1])] ''dup'' demo_host"
proof -
  have h: "list_all2 (\<lambda>(key, b) (key', b'). key = key' \<and> mset b = mset b')
     [([''A''], [3, 1, 2 :: int])] [([''A''], [2, 3, 1])]"
    by simp
  from labeling_ignores_order_within_buckets[OF h] h show ?thesis by blast
qed

end
